theory Spec2Isabelle
  imports Complex_Main "HOL-Library.Word"
begin

section \<open>Values of the host language\<close>

text \<open>
  The mask and pixel buffers of \<^verbatim>\<open>src/lib/removeBackground.ts\<close> are typed arrays of
  unsigned bytes: a \<^verbatim>\<open>Uint8Array\<close> is a list of 8-bit words. The numbers held by a raw
  mask buffer are modelled as exact rationals: the rounding of IEEE doubles, NaN and the
  infinities are outside the model.
\<close>

type_synonym u8 = "8 word"

datatype error = Error string

text \<open>\<^verbatim>\<open>xs[i]\<close>: an index past the end reads \<^verbatim>\<open>undefined\<close>, here \<open>None\<close>.\<close>

definition elemAt :: "'a list \<Rightarrow> nat \<Rightarrow> 'a option" where
  "elemAt xs i = (if i < length xs then Some (xs ! i) else None)"

text \<open>\<^verbatim>\<open>Math.round\<close> rounds to the nearest integer, a half towards plus infinity.\<close>

definition Math_round :: "rat \<Rightarrow> int" where
  "Math_round v = \<lfloor>v + 1 / 2\<rfloor>"

text \<open>
  Storing an integral number into a \<^verbatim>\<open>Uint8Array\<close> keeps it modulo 256 (ToUint8);
  storing \<^verbatim>\<open>undefined\<close> stores 0.
\<close>

definition toUint8 :: "int \<Rightarrow> u8" where
  "toUint8 n = word_of_int (n mod 256)"

text \<open>
  \<^verbatim>\<open>for (let i = start; i < n; i++) body\<close>, the loop variable passed to the body and the
  mutated buffers threaded through as the state.
\<close>

function forLoop :: "nat \<Rightarrow> nat \<Rightarrow> (nat \<Rightarrow> 's \<Rightarrow> 's) \<Rightarrow> 's \<Rightarrow> 's" where
  "forLoop i n body s = (if i < n then forLoop (Suc i) n body (body i s) else s)"
  by pat_completeness auto
termination
  by (relation "measure (\<lambda>(i, n, body, s). n - i)") auto

declare forLoop.simps [simp del]

text \<open>\<^verbatim>\<open>new Uint8Array(n)\<close> is zero-filled; \<^verbatim>\<open>buf.fill(v)\<close> overwrites every entry.\<close>

definition newUint8Array :: "nat \<Rightarrow> u8 list" where
  "newUint8Array n = replicate n 0"

definition fill :: "u8 list \<Rightarrow> u8 \<Rightarrow> u8 list" where
  "fill buf v = map (\<lambda>_. v) buf"

section \<open>Compositing: \<^verbatim>\<open>applySegmentationMask\<close>, the alpha loop\<close>

text \<open>
  Lines 129-133: \<^verbatim>\<open>for (let i = 0; i < maskData.length; i++) pixels[i * 4 + 3] = maskData[i]\<close>.
  A write past the end of a typed array is ignored, as \<open>list_update\<close> does.
\<close>

definition applyAlpha :: "u8 list \<Rightarrow> u8 list \<Rightarrow> u8 list" where
  "applyAlpha pixels maskData =
     forLoop 0 (length maskData) (\<lambda>i px. px[i * 4 + 3 := maskData ! i]) pixels"

section \<open>Resampling: \<^verbatim>\<open>resizeMask\<close> and \<^verbatim>\<open>resizeMaskFromImageData\<close>\<close>

text \<open>
  Lines 305-330. The two ratios are computed before the loops and used only inside them,
  where \<open>dstWidth\<close> and \<open>dstHeight\<close> are positive. \<^verbatim>\<open>data[srcIndex] || 0\<close> reads 0 for a
  missing entry. The value written is \<^verbatim>\<open>value <= 1 ? Math.round(value * 255) : Math.round(value)\<close>.
\<close>

definition resizeMask :: "rat list \<Rightarrow> nat \<Rightarrow> nat \<Rightarrow> nat \<Rightarrow> nat \<Rightarrow> u8 list" where
  "resizeMask data srcWidth srcHeight dstWidth dstHeight =
     (let result = newUint8Array (dstWidth * dstHeight);
          xRatio = rat_of_nat srcWidth / rat_of_nat dstWidth;
          yRatio = rat_of_nat srcHeight / rat_of_nat dstHeight
      in forLoop 0 dstHeight (\<lambda>y. forLoop 0 dstWidth (\<lambda>x result.
           let srcX = nat \<lfloor>rat_of_nat x * xRatio\<rfloor>;
               srcY = nat \<lfloor>rat_of_nat y * yRatio\<rfloor>;
               srcIndex = srcY * srcWidth + srcX;
               dstIndex = y * dstWidth + x;
               val = (case elemAt data srcIndex of None \<Rightarrow> 0 | Some v \<Rightarrow> v)
           in result[dstIndex :=
                toUint8 (if val \<le> 1 then Math_round (val * 255) else Math_round val)]))
         result)"

text \<open>
  Lines 335-360: the same walk over RGBA bytes, taking the red byte of the source pixel
  as it is (\<^verbatim>\<open>data[srcIndex] || 0\<close>, with \<open>srcIndex\<close> four times the pixel index).
\<close>

definition resizeMaskFromImageData :: "u8 list \<Rightarrow> nat \<Rightarrow> nat \<Rightarrow> nat \<Rightarrow> nat \<Rightarrow> u8 list" where
  "resizeMaskFromImageData data srcWidth srcHeight dstWidth dstHeight =
     (let result = newUint8Array (dstWidth * dstHeight);
          xRatio = rat_of_nat srcWidth / rat_of_nat dstWidth;
          yRatio = rat_of_nat srcHeight / rat_of_nat dstHeight
      in forLoop 0 dstHeight (\<lambda>y. forLoop 0 dstWidth (\<lambda>x result.
           let srcX = nat \<lfloor>rat_of_nat x * xRatio\<rfloor>;
               srcY = nat \<lfloor>rat_of_nat y * yRatio\<rfloor>;
               srcIndex = (srcY * srcWidth + srcX) * 4;
               dstIndex = y * dstWidth + x
           in result[dstIndex := (case elemAt data srcIndex of None \<Rightarrow> 0 | Some b \<Rightarrow> b)]))
         result)"

section \<open>Segmentation results\<close>

text \<open>
  The segmenter's result is untyped in the source (\<^verbatim>\<open>any\<close>); \<^verbatim>\<open>extractMaskData\<close> looks
  at the properties below and at nothing else. Calls into host objects are given by what
  they yield: \<^verbatim>\<open>mask.toCanvas()\<close> with its \<^verbatim>\<open>getContext('2d')\<close> and \<^verbatim>\<open>getImageData\<close> either
  throws, has no context, or reads back a width, a height and RGBA bytes;
  \<^verbatim>\<open>mask.toDataURL()\<close> throws (or rejects) or yields a URL. A property that is absent, or
  not of the type the source tests for, is \<open>None\<close>.
\<close>

datatype canvas_readback =
    CanvasThrows error
  | NoContext
  | Readback nat nat "u8 list"

datatype dataurl_call = DataURLThrows error | DataURL string

record mask =
  mask_toCanvas :: "canvas_readback option"
  mask_data :: "rat list option"
  mask_width :: "nat option"
  mask_height :: "nat option"
  mask_toDataURL :: "dataurl_call option"

record segment =
  segment_mask :: "mask option"
  segment_score :: "rat option"

text \<open>
  \<open>Nullish\<close> is \<^verbatim>\<open>null\<close>, \<^verbatim>\<open>undefined\<close> or another falsy value; \<open>Segments\<close> is an array,
  whose elements may be \<^verbatim>\<open>null\<close> (\<open>None\<close>) and which has no \<^verbatim>\<open>data\<close> property of its own;
  \<open>Tensor\<close> is any other object, with its \<^verbatim>\<open>data\<close> buffer if it has one.
\<close>

datatype segmentation_result =
    Nullish
  | Segments "segment option list"
  | Tensor "rat list option"

text \<open>
  What the browser does with \<^verbatim>\<open>img.src = imageUrl\<close> in \<^verbatim>\<open>extractMaskFromImage\<close>: it
  fires \<^verbatim>\<open>onerror\<close>, or fires \<^verbatim>\<open>onload\<close> and then either has no 2d context or reads back
  the RGBA bytes of the image drawn at the target size.
\<close>

datatype image_load = LoadError | NoContext2d | Drawn "u8 list"

type_synonym browser = "string \<Rightarrow> nat \<Rightarrow> nat \<Rightarrow> image_load"

section \<open>The mask normalizer: \<^verbatim>\<open>extractMaskData\<close>\<close>

text \<open>\<^verbatim>\<open>maskData[i] = pixels[i * 4]\<close>: a byte, or 0 where the read is \<^verbatim>\<open>undefined\<close>.\<close>

definition byteAt :: "u8 list \<Rightarrow> nat \<Rightarrow> u8" where
  "byteAt pixels k = (case elemAt pixels k of None \<Rightarrow> 0 | Some b \<Rightarrow> b)"

text \<open>
  Lines 260-300. The promise rejects from \<^verbatim>\<open>onerror\<close> and from \<^verbatim>\<open>onload\<close> without a
  context, and resolves with the red bytes otherwise.
\<close>

definition extractMaskFromImage :: "browser \<Rightarrow> string \<Rightarrow> nat \<Rightarrow> nat \<Rightarrow> error + u8 list" where
  "extractMaskFromImage browser imageUrl targetWidth targetHeight =
     (case browser imageUrl targetWidth targetHeight of
        LoadError \<Rightarrow> Inl (Error ''Failed to load mask image'')
      | NoContext2d \<Rightarrow> Inl (Error ''Failed to get canvas context'')
      | Drawn pixels \<Rightarrow>
          (let totalPixels = targetWidth * targetHeight;
               maskData = newUint8Array totalPixels
           in Inr (forLoop 0 totalPixels (\<lambda>i maskData. maskData[i := byteAt pixels (i * 4)])
                     maskData)))"

text \<open>
  Lines 178-200, the \<^verbatim>\<open>toCanvas\<close> branch. \<open>None\<close> is control falling through to the next
  test: \<^verbatim>\<open>toCanvas\<close> is not a function, the \<^verbatim>\<open>try\<close> block threw (caught, with a warning), or
  there is no context.
\<close>

definition viaToCanvas :: "mask \<Rightarrow> nat \<Rightarrow> nat \<Rightarrow> u8 list option" where
  "viaToCanvas m w h =
     (case mask_toCanvas m of
        None \<Rightarrow> None
      | Some (CanvasThrows e) \<Rightarrow> None
      | Some NoContext \<Rightarrow> None
      | Some (Readback canvasWidth canvasHeight maskPixels) \<Rightarrow>
          if canvasWidth \<noteq> w \<or> canvasHeight \<noteq> h
          then Some (resizeMaskFromImageData maskPixels canvasWidth canvasHeight w h)
          else Some (forLoop 0 (w * h) (\<lambda>i maskData. maskData[i := byteAt maskPixels (i * 4)])
                       (newUint8Array (w * h))))"

text \<open>\<^verbatim>\<open>mask.width || width\<close>: an absent or zero width is replaced by the target's.\<close>

definition orElse :: "nat option \<Rightarrow> nat \<Rightarrow> nat" where
  "orElse v d = (case v of None \<Rightarrow> d | Some n \<Rightarrow> if n = 0 then d else n)"

text \<open>
  Lines 202-220, the \<^verbatim>\<open>mask.data\<close> branch; \<^verbatim>\<open>data[i] ?? 0\<close> reads 0 for a missing entry.
\<close>

definition viaData :: "mask \<Rightarrow> nat \<Rightarrow> nat \<Rightarrow> u8 list option" where
  "viaData m w h =
     (case mask_data m of
        None \<Rightarrow> None
      | Some data \<Rightarrow>
          (let maskWidth = orElse (mask_width m) w;
               maskHeight = orElse (mask_height m) h
           in if maskWidth \<noteq> w \<or> maskHeight \<noteq> h
              then Some (resizeMask data maskWidth maskHeight w h)
              else Some (forLoop 0 (w * h) (\<lambda>i maskData.
                     let val = (case elemAt data i of None \<Rightarrow> 0 | Some v \<Rightarrow> v)
                     in maskData[i :=
                          toUint8 (if val \<le> 1 then Math_round (val * 255) else Math_round val)])
                   (newUint8Array (w * h)))))"

text \<open>
  Lines 222-229, the \<^verbatim>\<open>toDataURL\<close> branch:
  \<^verbatim>\<open>try { return extractMaskFromImage(await mask.toDataURL(), width, height) } catch (e) { warn }\<close>.
  Only \<^verbatim>\<open>mask.toDataURL()\<close> is awaited inside the \<^verbatim>\<open>try\<close> block, so only its failure is
  caught (\<open>None\<close>: control falls through). The promise of \<^verbatim>\<open>extractMaskFromImage\<close> is returned
  without \<^verbatim>\<open>await\<close>: the \<^verbatim>\<open>return\<close> completes normally, the promise of \<^verbatim>\<open>extractMaskData\<close>
  adopts it, and its rejection becomes the rejection of \<^verbatim>\<open>extractMaskData\<close>.
\<close>

definition viaToDataURL :: "browser \<Rightarrow> mask \<Rightarrow> nat \<Rightarrow> nat \<Rightarrow> (error + u8 list) option" where
  "viaToDataURL browser m w h =
     (case mask_toDataURL m of
        None \<Rightarrow> None
      | Some (DataURLThrows e) \<Rightarrow> None
      | Some (DataURL url) \<Rightarrow> Some (extractMaskFromImage browser url w h))"

text \<open>
  Lines 241-254: a top-level \<^verbatim>\<open>data\<close> buffer is converted up to
  \<^verbatim>\<open>Math.min(data.length, totalPixels)\<close>; anything else is the opaque fallback.
\<close>

definition fromResultData :: "segmentation_result \<Rightarrow> nat \<Rightarrow> u8 list" where
  "fromResultData result totalPixels =
     (case result of
        Tensor (Some data) \<Rightarrow>
          forLoop 0 (min (length data) totalPixels) (\<lambda>i maskData.
             let val = (case elemAt data i of None \<Rightarrow> 0 | Some v \<Rightarrow> v)
             in maskData[i :=
                  toUint8 (if val \<le> 1 then Math_round (val * 255) else Math_round val)])
            (newUint8Array totalPixels)
      | _ \<Rightarrow> fill (newUint8Array totalPixels) 255)"

text \<open>
  Lines 172-238, for a first segment that is not falsy: the mask branches in the source's
  order, then the score, then (\<open>None\<close>) the code after the array block.
\<close>

definition fromSegment :: "browser \<Rightarrow> segment \<Rightarrow> nat \<Rightarrow> nat \<Rightarrow> (error + u8 list) option" where
  "fromSegment browser seg w h =
     (let byScore =
            (case segment_score seg of
               Some score \<Rightarrow> Some (Inr (fill (newUint8Array (w * h)) (if score > 1 / 2 then 255 else 0)))
             | None \<Rightarrow> None)
      in case segment_mask seg of
           None \<Rightarrow> byScore
         | Some m \<Rightarrow>
             (case viaToCanvas m w h of
                Some maskData \<Rightarrow> Some (Inr maskData)
              | None \<Rightarrow>
                  (case viaData m w h of
                     Some maskData \<Rightarrow> Some (Inr maskData)
                   | None \<Rightarrow>
                       (case viaToDataURL browser m w h of
                          Some settled \<Rightarrow> Some settled
                        | None \<Rightarrow> byScore))))"

text \<open>
  Lines 145-255. \<open>Inl\<close> is a rejected promise, \<open>Inr\<close> the buffer it resolves with.
\<close>

definition extractMaskData :: "browser \<Rightarrow> segmentation_result \<Rightarrow> nat \<Rightarrow> nat \<Rightarrow> error + u8 list" where
  "extractMaskData browser result w h =
     (let totalPixels = w * h in
      case result of
        Nullish \<Rightarrow> Inr (fill (newUint8Array totalPixels) 255)
      | Segments (None # rest) \<Rightarrow> Inr (fill (newUint8Array totalPixels) 255)
      | Segments (Some seg # rest) \<Rightarrow>
          (case fromSegment browser seg w h of
             Some settled \<Rightarrow> settled
           | None \<Rightarrow> Inr (fromResultData result totalPixels))
      | _ \<Rightarrow> Inr (fromResultData result totalPixels))"

section \<open>Fitting the image: \<^verbatim>\<open>loadImageToCanvas\<close>\<close>

text \<open>
  The arithmetic of lines 468-475 divides by the image's width and height. Division by
  zero does not fail in the source, it yields an infinity or NaN, so the numbers of this
  function carry them.
\<close>

datatype number = Num rat | Infinity | NegInfinity | NaN






record drawImage_call =
  offsetX :: number
  offsetY :: number
  scaledWidth :: number
  scaledHeight :: number

record ImageLoadResult =
  canvasWidth :: nat
  canvasHeight :: nat
  drawn :: drawImage_call
  originalWidth :: nat
  originalHeight :: nat


section \<open>Progress of the model load: \<^verbatim>\<open>normalizeProgress\<close>\<close>

text \<open>
  \<^verbatim>\<open>src/lib/modelLoader.ts\<close>, lines 18-25 and 125-141. \<^verbatim>\<open>loaded\<close> and \<^verbatim>\<open>total\<close> are byte
  counts; \<^verbatim>\<open>data.loaded && data.total\<close> holds when both are present and not zero.
\<close>

datatype status = Initiate | Download | Progress | Done | Ready

record ProgressInfo =
  info_status :: status
  info_name :: "string option"
  info_file :: "string option"
  info_progress :: "int option"
  info_loaded :: "nat option"
  info_total :: "nat option"

definition normalizeProgress :: "ProgressInfo \<Rightarrow> ProgressInfo" where
  "normalizeProgress data =
     (let progress =
            (case (info_status data, info_loaded data, info_total data) of
               (Progress, Some loadedBytes, Some totalBytes) \<Rightarrow>
                 if loadedBytes \<noteq> 0 \<and> totalBytes \<noteq> 0
                 then Math_round (rat_of_nat loadedBytes / rat_of_nat totalBytes * 100)
                 else 0
             | (Done, _, _) \<Rightarrow> 100
             | (Ready, _, _) \<Rightarrow> 100
             | _ \<Rightarrow> 0)
      in data\<lparr>info_progress := Some progress\<rparr>)"

text \<open>The percentage an event is normalized to.\<close>

definition percentOf :: "ProgressInfo \<Rightarrow> int" where
  "percentOf data = (case info_progress (normalizeProgress data) of Some p \<Rightarrow> p | None \<Rightarrow> 0)"

section \<open>The model loader: \<^verbatim>\<open>getSegmenter\<close>\<close>

text \<open>
  The module state of \<^verbatim>\<open>modelLoader.ts\<close> is \<^verbatim>\<open>segmenterInstance\<close> and \<^verbatim>\<open>loadingPromise\<close>
  (lines 35-39). JavaScript runs one job at a time, so an execution is a sequence of
  atomic steps: the synchronous part of a \<^verbatim>\<open>getSegmenter\<close> call (up to its \<^verbatim>\<open>return\<close> or
  its \<^verbatim>\<open>await\<close>), the settling of a promise returned by \<^verbatim>\<open>initializeModel\<close>, and the
  continuation of a call suspended at \<^verbatim>\<open>await loadingPromise\<close>. The promises returned by
  \<^verbatim>\<open>initializeModel\<close> live in a store, addressed by their position; \<open>loads\<close> grows by
  one with every \<^verbatim>\<open>initializeModel\<close> call. The progress callbacks are left out.
\<close>

type_synonym segmenter = nat

datatype 'a promise = Pending | Fulfilled 'a | Rejected error

text \<open>
  What \<^verbatim>\<open>getTransformers\<close> and \<^verbatim>\<open>pipeline\<close> do inside \<^verbatim>\<open>initializeModel\<close> (lines 90-120):
  they yield a segmenter, throw an \<^verbatim>\<open>Error\<close>, or throw a value that is not an \<^verbatim>\<open>Error\<close>, which
  the \<^verbatim>\<open>catch\<close> block replaces.
\<close>

datatype pipeline_outcome = Loaded segmenter | ThrowsError error | ThrowsOther

definition initializeModel :: "pipeline_outcome \<Rightarrow> segmenter promise" where
  "initializeModel outcome =
     (case outcome of
        Loaded inst \<Rightarrow> Fulfilled inst
      | ThrowsError e \<Rightarrow> Rejected e
      | ThrowsOther \<Rightarrow> Rejected (Error ''Failed to load model''))"

text \<open>
  Where a \<^verbatim>\<open>getSegmenter\<close> call stands: it has returned the instance; it has returned
  \<^verbatim>\<open>loadingPromise\<close>, so that its own promise settles as that one does; it is suspended at
  \<^verbatim>\<open>await loadingPromise\<close> inside the \<^verbatim>\<open>try\<close> block; or its \<^verbatim>\<open>catch\<close> block has rethrown.
\<close>

datatype call = Returned segmenter | Adopted nat | Awaiting nat | Threw error

record loader =
  segmenterInstance :: "segmenter option"
  loadingPromise :: "nat option"
  loads :: "segmenter promise list"
  calls :: "call list"

definition initial :: loader where
  "initial = \<lparr>segmenterInstance = None, loadingPromise = None, loads = [], calls = []\<rparr>"

text \<open>Lines 59-78, up to the \<^verbatim>\<open>await\<close>.\<close>

definition getSegmenter :: "loader \<Rightarrow> loader" where
  "getSegmenter s =
     (case segmenterInstance s of
        Some inst \<Rightarrow> s\<lparr>calls := calls s @ [Returned inst]\<rparr>
      | None \<Rightarrow>
          (case loadingPromise s of
             Some p \<Rightarrow> s\<lparr>calls := calls s @ [Adopted p]\<rparr>
           | None \<Rightarrow>
               (let p = length (loads s)
                in s\<lparr>loadingPromise := Some p, loads := loads s @ [Pending],
                     calls := calls s @ [Awaiting p]\<rparr>)))"

text \<open>The promise at \<open>p\<close> settles, if it is still pending.\<close>

definition settle :: "nat \<Rightarrow> pipeline_outcome \<Rightarrow> loader \<Rightarrow> loader" where
  "settle p outcome s =
     (if elemAt (loads s) p = Some Pending
      then s\<lparr>loads := (loads s)[p := initializeModel outcome]\<rparr>
      else s)"

text \<open>
  Lines 78-84, after the \<^verbatim>\<open>await\<close>: call \<open>c\<close> continues once the promise it awaits has
  settled. It stores and returns the instance, or clears \<^verbatim>\<open>loadingPromise\<close> and rethrows.
\<close>

definition resume :: "nat \<Rightarrow> loader \<Rightarrow> loader" where
  "resume c s =
     (case elemAt (calls s) c of
        Some (Awaiting p) \<Rightarrow>
          (case elemAt (loads s) p of
             Some (Fulfilled inst) \<Rightarrow>
               s\<lparr>segmenterInstance := Some inst, calls := (calls s)[c := Returned inst]\<rparr>
           | Some (Rejected e) \<Rightarrow>
               s\<lparr>loadingPromise := None, calls := (calls s)[c := Threw e]\<rparr>
           | _ \<Rightarrow> s)
      | _ \<Rightarrow> s)"

datatype event = Call | Settle nat pipeline_outcome | Resume nat

fun step :: "event \<Rightarrow> loader \<Rightarrow> loader" where
  "step Call s = getSegmenter s"
| "step (Settle p outcome) s = settle p outcome s"
| "step (Resume c) s = resume c s"

definition run :: "event list \<Rightarrow> loader \<Rightarrow> loader" where
  "run events s = fold step events s"

text \<open>The state of the promise that call \<open>c\<close> handed to its caller.\<close>

definition received :: "loader \<Rightarrow> nat \<Rightarrow> segmenter promise" where
  "received s c =
     (case elemAt (calls s) c of
        Some (Returned inst) \<Rightarrow> Fulfilled inst
      | Some (Adopted p) \<Rightarrow> (case elemAt (loads s) p of Some settled \<Rightarrow> settled | None \<Rightarrow> Pending)
      | Some (Awaiting p) \<Rightarrow> Pending
      | Some (Threw e) \<Rightarrow> Rejected e
      | None \<Rightarrow> Pending)"

section \<open>What the loader reports, and what the module state keeps\<close>

text \<open>
  The events the underlying loader reports while it fetches one file, in the order it
  reports them: \<^verbatim>\<open>initiate\<close>, \<^verbatim>\<open>download\<close>, a \<^verbatim>\<open>progress\<close> event per chunk with the bytes
  loaded so far and the file's total, and \<^verbatim>\<open>done\<close>. A run fetches several files, one after
  the other, and ends with \<^verbatim>\<open>ready\<close>.
\<close>

definition progressEvent :: "status \<Rightarrow> string \<Rightarrow> nat option \<Rightarrow> nat option \<Rightarrow> ProgressInfo" where
  "progressEvent s f loadedBytes totalBytes =
     \<lparr>info_status = s, info_name = Some ''briaai/RMBG-1.4'', info_file = Some f,
      info_progress = None, info_loaded = loadedBytes, info_total = totalBytes\<rparr>"

definition fileEvents :: "string \<Rightarrow> nat \<Rightarrow> nat list \<Rightarrow> ProgressInfo list" where
  "fileEvents f totalBytes loadedCounts =
     [progressEvent Initiate f None None, progressEvent Download f None None]
     @ map (\<lambda>n. progressEvent Progress f (Some n) (Some totalBytes)) loadedCounts
     @ [progressEvent Done f None None]"

text \<open>
  The invariant of the module state: a pending load is the one \<^verbatim>\<open>loadingPromise\<close> names,
  a call suspended at the \<^verbatim>\<open>await\<close> awaits that same promise, and at most one call is
  suspended there.
\<close>

definition loader_inv :: "loader \<Rightarrow> bool" where
  "loader_inv s \<longleftrightarrow>
     (\<forall>p. elemAt (loads s) p = Some Pending \<longrightarrow> loadingPromise s = Some p)
   \<and> (\<forall>c p. elemAt (calls s) c = Some (Awaiting p) \<longrightarrow> loadingPromise s = Some p)
   \<and> (\<forall>c c' p p'. elemAt (calls s) c = Some (Awaiting p) \<longrightarrow>
          elemAt (calls s) c' = Some (Awaiting p') \<longrightarrow> c = c')"

section \<open>Loops as folds\<close>

lemma forLoop_fold: "forLoop i n body s = fold body [i..<n] s"
proof (induction i n body s rule: forLoop.induct)
  case (1 i n body s)
  show ?case
  proof (cases "i < n")
    case True
    then show ?thesis
      using 1 by (subst forLoop.simps) (simp add: upt_conv_Cons)
  next
    case False
    then show ?thesis by (subst forLoop.simps) simp
  qed
qed

lemma forLoop_Suc: "i \<le> n \<Longrightarrow> forLoop i (Suc n) body s = body n (forLoop i n body s)"
  by (simp add: forLoop_fold)

lemma forLoop_empty: "n \<le> i \<Longrightarrow> forLoop i n body s = s"
  by (simp add: forLoop_fold)

lemma length_forLoop_update:
  "length (forLoop i n (\<lambda>k buf. buf[g k := f k buf]) buf) = length buf"
proof (induction n)
  case 0
  then show ?case by (simp add: forLoop_empty)
next
  case (Suc n)
  then show ?case
    by (cases "i \<le> n") (simp_all add: forLoop_Suc forLoop_empty)
qed

section \<open>The alpha loop\<close>

lemma length_applyAlpha: "length (applyAlpha pixels maskData) = length pixels"
  unfolding applyAlpha_def by (rule length_forLoop_update)

lemma nth_alpha_loop:
  "j < length px \<Longrightarrow>
   forLoop 0 n (\<lambda>i px. px[i * 4 + 3 := m ! i]) px ! j =
     (if j mod 4 = 3 \<and> j div 4 < n then m ! (j div 4) else px ! j)"
proof (induction n)
  case 0
  then show ?case by (simp add: forLoop_empty)
next
  case (Suc n)
  have len: "length (forLoop 0 n (\<lambda>i px. px[i * 4 + 3 := m ! i]) px) = length px"
    by (rule length_forLoop_update)
  have eq: "j = n * 4 + 3 \<longleftrightarrow> j mod 4 = 3 \<and> j div 4 = n"
    by presburger
  show ?case
    using Suc len eq by (auto simp: forLoop_Suc nth_list_update less_Suc_eq)
qed

lemma nth_applyAlpha:
  "j < length pixels \<Longrightarrow>
   applyAlpha pixels maskData ! j =
     (if j mod 4 = 3 \<and> j div 4 < length maskData then maskData ! (j div 4) else pixels ! j)"
  unfolding applyAlpha_def by (rule nth_alpha_loop)

text \<open>
  C8. Compositing writes the opacity buffer into the alpha channel only: for a pixel
  buffer of \<open>n\<close> RGBA pixels and an opacity buffer of \<open>n\<close> bytes, the alpha byte of every
  pixel \<open>i < n\<close> becomes \<open>maskData[i]\<close>, its R, G and B bytes are those of the input, and
  compositing a second time with the same opacity buffer changes nothing.
\<close>

theorem applyAlpha_alpha_only:
  assumes "length pixels = 4 * n" and "length maskData = n"
  shows "(\<forall>i<n. applyAlpha pixels maskData ! (i * 4 + 3) = maskData ! i
            \<and> applyAlpha pixels maskData ! (i * 4) = pixels ! (i * 4)
            \<and> applyAlpha pixels maskData ! (i * 4 + 1) = pixels ! (i * 4 + 1)
            \<and> applyAlpha pixels maskData ! (i * 4 + 2) = pixels ! (i * 4 + 2))
       \<and> length (applyAlpha pixels maskData) = length pixels
       \<and> applyAlpha (applyAlpha pixels maskData) maskData = applyAlpha pixels maskData"
proof (intro conjI allI impI)
  fix i assume i: "i < n"
  with assms have in_range: "i * 4 + 3 < length pixels" "i * 4 < length pixels"
    "i * 4 + 1 < length pixels" "i * 4 + 2 < length pixels"
    by simp_all
  have m3: "(i * 4 + 3) mod 4 = 3" "(i * 4 + 3) div 4 = i" by presburger+
  have m0: "(i * 4) mod 4 \<noteq> 3" "(i * 4 + 1) mod 4 \<noteq> 3" "(i * 4 + 2) mod 4 \<noteq> 3"
    by presburger+
  show "applyAlpha pixels maskData ! (i * 4 + 3) = maskData ! i"
    using in_range(1) i assms(2) m3 by (simp add: nth_applyAlpha)
  show "applyAlpha pixels maskData ! (i * 4) = pixels ! (i * 4)"
    using in_range(2) m0(1) by (simp add: nth_applyAlpha)
  show "applyAlpha pixels maskData ! (i * 4 + 1) = pixels ! (i * 4 + 1)"
    using in_range(3) m0(2) by (simp add: nth_applyAlpha)
  show "applyAlpha pixels maskData ! (i * 4 + 2) = pixels ! (i * 4 + 2)"
    using in_range(4) m0(3) by (simp add: nth_applyAlpha)
next
  show "length (applyAlpha pixels maskData) = length pixels"
    by (rule length_applyAlpha)
next
  show "applyAlpha (applyAlpha pixels maskData) maskData = applyAlpha pixels maskData"
    by (rule nth_equalityI) (simp_all add: length_applyAlpha nth_applyAlpha)
qed

theorem applyAlpha_alpha_only_witness:
  "applyAlpha [10, 20, 30, 255, 40, 50, 60, 255] [7, 9] = [10, 20, 30, 7, 40, 50, 60, 9]
   \<and> applyAlpha (applyAlpha [10, 20, 30, 255, 40, 50, 60, 255] [7, 9]) [7, 9]
       = applyAlpha [10, 20, 30, 255, 40, 50, 60, 255] [7, 9]"
proof -
  have run: "applyAlpha [10, 20, 30, 255, 40, 50, 60, 255] [7, 9] = [10, 20, 30, 7, 40, 50, 60, 9]"
    by (simp add: applyAlpha_def forLoop_fold upt_conv_Cons)
  have idem: "applyAlpha (applyAlpha [10, 20, 30, 255, 40, 50, 60, 255] [7, 9]) [7, 9]
       = applyAlpha [10, 20, 30, 255, 40, 50, 60, 255] [7, 9]"
    using applyAlpha_alpha_only [of "[10, 20, 30, 255, 40, 50, 60, 255]" 2 "[7, 9]"] by simp
  from run idem show ?thesis by simp
qed

section \<open>Loops that fill a buffer\<close>

lemma length_forLoop:
  assumes "\<And>k s. length (body k s) = length s"
  shows "length (forLoop i n body s) = length s"
proof (induction n)
  case 0
  then show ?case by (simp add: forLoop_empty)
next
  case (Suc n)
  then show ?case
    by (cases "i \<le> n") (simp_all add: forLoop_Suc forLoop_empty assms)
qed

lemma nth_forLoop_write:
  "j < length buf \<Longrightarrow>
   forLoop 0 n (\<lambda>i buf. buf[i := f i]) buf ! j = (if j < n then f j else buf ! j)"
proof (induction n)
  case 0
  then show ?case by (simp add: forLoop_empty)
next
  case (Suc n)
  have len: "length (forLoop 0 n (\<lambda>i buf. buf[i := f i]) buf) = length buf"
    by (rule length_forLoop) simp
  show ?case
    using Suc len by (auto simp: forLoop_Suc nth_list_update less_Suc_eq)
qed




lemma length_resizeMask: "length (resizeMask data sw sh dw dh) = dw * dh"
  unfolding resizeMask_def Let_def newUint8Array_def
  by (simp add: length_forLoop)

lemma length_resizeMaskFromImageData: "length (resizeMaskFromImageData data sw sh dw dh) = dw * dh"
  unfolding resizeMaskFromImageData_def Let_def newUint8Array_def
  by (simp add: length_forLoop)




text \<open>Floors of quotients of numerals, for evaluating the examples.\<close>

lemma floor_rat_numeral [simp]:
  "\<lfloor>(numeral a :: rat) / numeral b\<rfloor> = numeral a div numeral b"
  "\<lfloor>(1 :: rat) / numeral b\<rfloor> = 1 div numeral b"
  "\<lfloor>- (numeral a :: rat) / numeral b\<rfloor> = - numeral a div numeral b"
  by (metis floor_divide_of_int_eq of_int_numeral,
      metis floor_divide_of_int_eq of_int_numeral of_int_1,
      metis floor_divide_of_int_eq of_int_numeral of_int_minus)

section \<open>The resampling claims\<close>



section \<open>The mask normalizer's claims\<close>

lemma forLoop_write_all:
  "forLoop 0 n (\<lambda>i buf. buf[i := f i]) (newUint8Array n) = map f [0..<n]"
proof (rule nth_equalityI)
  show "length (forLoop 0 n (\<lambda>i buf. buf[i := f i]) (newUint8Array n)) = length (map f [0..<n])"
    by (simp add: length_forLoop newUint8Array_def)
next
  fix j assume "j < length (forLoop 0 n (\<lambda>i buf. buf[i := f i]) (newUint8Array n))"
  then have j: "j < n" by (simp add: length_forLoop newUint8Array_def)
  then show "forLoop 0 n (\<lambda>i buf. buf[i := f i]) (newUint8Array n) ! j = map f [0..<n] ! j"
    by (simp add: nth_forLoop_write newUint8Array_def)
qed

lemma fill_new: "fill (newUint8Array n) v = replicate n v"
  by (simp add: fill_def newUint8Array_def map_replicate_const)

lemma uint_toUint8: "uint (toUint8 n) = n mod 256"
  by (simp add: toUint8_def uint_word_of_int)


text \<open>
  C7. A null or undefined result, an empty array, and an array whose first segment has
  neither mask nor score (\<^verbatim>\<open>[{}]\<close>) each give a buffer of \<open>w * h\<close> entries, all 255; so
  does an array whose first element is null.
\<close>

theorem opaque_fallback:
  "extractMaskData browser Nullish w h = Inr (replicate (w * h) 255)
   \<and> extractMaskData browser (Segments []) w h = Inr (replicate (w * h) 255)
   \<and> extractMaskData browser
         (Segments (Some \<lparr>segment_mask = None, segment_score = None\<rparr> # rest)) w h
       = Inr (replicate (w * h) 255)
   \<and> extractMaskData browser (Segments (None # rest)) w h = Inr (replicate (w * h) 255)"
  by (simp add: extractMaskData_def fromSegment_def fromResultData_def fill_new)

theorem opaque_fallback_witness:
  "extractMaskData (\<lambda>url w h. LoadError) Nullish 2 2 = Inr [255, 255, 255, 255]
   \<and> extractMaskData (\<lambda>url w h. LoadError) (Segments []) 2 2 = Inr [255, 255, 255, 255]
   \<and> extractMaskData (\<lambda>url w h. LoadError)
         (Segments [Some \<lparr>segment_mask = None, segment_score = None\<rparr>]) 2 2
       = Inr [255, 255, 255, 255]"
  using opaque_fallback [of "\<lambda>url w h. LoadError" 2 2 "[]"]
  by (simp add: numeral_eq_Suc)

lemma viaData_matching:
  assumes "mask_data m = Some data"
    and "orElse (mask_width m) w = w" and "orElse (mask_height m) h = h"
  shows "viaData m w h = Some (map (\<lambda>i.
           let val = (case elemAt data i of None \<Rightarrow> 0 | Some v \<Rightarrow> v)
           in toUint8 (if val \<le> 1 then Math_round (val * 255) else Math_round val)) [0..<w * h])"
  using assms by (simp add: viaData_def Let_def forLoop_write_all)

lemma extractMaskData_viaData:
  assumes "segment_mask seg = Some m" and "viaToCanvas m w h = None"
    and "viaData m w h = Some maskData"
  shows "extractMaskData browser (Segments (Some seg # rest)) w h = Inr maskData"
  using assms by (simp add: extractMaskData_def fromSegment_def)




lemma elemAt_Some: "elemAt xs i = Some v \<Longrightarrow> i < length xs \<and> xs ! i = v"
  by (auto simp: elemAt_def split: if_splits)

lemma fromResultData_Tensor:
  "length (fromResultData (Tensor (Some data)) n) = n"
  "i < n \<Longrightarrow> elemAt data i = Some v \<Longrightarrow>
     fromResultData (Tensor (Some data)) n ! i =
       toUint8 (if v \<le> 1 then Math_round (v * 255) else Math_round v)"
proof -
  show "length (fromResultData (Tensor (Some data)) n) = n"
    by (simp add: fromResultData_def Let_def length_forLoop newUint8Array_def)
  assume i: "i < n" and v: "elemAt data i = Some v"
  from v have "i < length data" by (simp add: elemAt_Some)
  with i v show "fromResultData (Tensor (Some data)) n ! i =
       toUint8 (if v \<le> 1 then Math_round (v * 255) else Math_round v)"
    by (simp add: fromResultData_def Let_def nth_forLoop_write newUint8Array_def)
qed

text \<open>
  C10. A raw value above 255, in a top-level buffer or in a mask buffer of the target's
  dimensions, is stored as its rounding modulo 256, not clamped: 256 gives 0 and 300
  gives 44.
\<close>

theorem raw_value_above_255_wraps:
  assumes "255 < v" and "i < w * h" and "elemAt data i = Some v"
    and "result = Tensor (Some data) \<or>
         (result = Segments (Some seg # rest) \<and> segment_mask seg = Some m
            \<and> viaToCanvas m w h = None \<and> mask_data m = Some data
            \<and> orElse (mask_width m) w = w \<and> orElse (mask_height m) h = h)"
  shows "(\<exists>maskData. extractMaskData browser result w h = Inr maskData
           \<and> length maskData = w * h
           \<and> uint (maskData ! i) = Math_round v mod 256)
       \<and> extractMaskData browser (Tensor (Some [256, 300])) 2 1 = Inr [0, 44]
       \<and> extractMaskData browser
             (Segments [Some \<lparr>segment_mask = Some \<lparr>mask_toCanvas = None,
                 mask_data = Some [256, 300], mask_width = None, mask_height = None,
                 mask_toDataURL = None\<rparr>, segment_score = None\<rparr>]) 2 1
           = Inr [0, 44]"
proof (intro conjI)
  show "extractMaskData browser (Tensor (Some [256, 300])) 2 1 = Inr [0, 44]"
    by (simp add: extractMaskData_def fromResultData_def forLoop_fold upt_conv_Cons
        newUint8Array_def elemAt_def Math_round_def toUint8_def numeral_2_eq_2)
next
  have up: "[0..<2] = [0, 1]" by (simp add: upt_conv_Cons)
  have "viaData \<lparr>mask_toCanvas = None, mask_data = Some [256, 300],
          mask_width = None, mask_height = None, mask_toDataURL = None\<rparr> 2 1
        = Some [0, 44]"
    by (subst viaData_matching [where data = "[256, 300]"])
      (simp_all add: orElse_def up elemAt_def Math_round_def toUint8_def)
  then show "extractMaskData browser
             (Segments [Some \<lparr>segment_mask = Some \<lparr>mask_toCanvas = None,
                 mask_data = Some [256, 300], mask_width = None, mask_height = None,
                 mask_toDataURL = None\<rparr>, segment_score = None\<rparr>]) 2 1
           = Inr [0, 44]"
    by (intro extractMaskData_viaData) (simp_all add: viaToCanvas_def)
next
  show "\<exists>maskData. extractMaskData browser result w h = Inr maskData
           \<and> length maskData = w * h
           \<and> uint (maskData ! i) = Math_round v mod 256"
    using assms(4)
  proof
    assume "result = Tensor (Some data)"
    then show ?thesis
      using assms(1,2,3)
      by (simp add: extractMaskData_def fromResultData_Tensor uint_toUint8)
  next
    assume seg: "result = Segments (Some seg # rest) \<and> segment_mask seg = Some m
            \<and> viaToCanvas m w h = None \<and> mask_data m = Some data
            \<and> orElse (mask_width m) w = w \<and> orElse (mask_height m) h = h"
    then have "extractMaskData browser result w h =
           Inr (map (\<lambda>i.
             let val = (case elemAt data i of None \<Rightarrow> 0 | Some v \<Rightarrow> v)
             in toUint8 (if val \<le> 1 then Math_round (val * 255) else Math_round val)) [0..<w * h])"
      by (simp add: extractMaskData_viaData viaData_matching)
    then show ?thesis
      using assms(1,2,3) by (simp add: uint_toUint8)
  qed
qed

theorem raw_value_above_255_wraps_witness:
  "\<exists>maskData. extractMaskData (\<lambda>url w h. LoadError) (Tensor (Some [256, 300])) 2 1 = Inr maskData
      \<and> length maskData = 2 \<and> uint (maskData ! 1) = 44"
proof -
  have entry: "elemAt [256, 300 :: rat] 1 = Some 300"
    by (simp add: elemAt_def)
  have rounded: "Math_round 300 mod 256 = 44"
    by (simp add: Math_round_def)
  show ?thesis
    using raw_value_above_255_wraps [where v = 300 and i = 1 and w = 2 and h = 1
        and data = "[256, 300]" and result = "Tensor (Some [256, 300])"
        and browser = "\<lambda>url w h. LoadError"] entry rounded
    by simp
qed

text \<open>
  C1. The claim is that \<^verbatim>\<open>extractMaskData\<close> never rejects. For a mask that offers only
  \<^verbatim>\<open>toDataURL\<close> and a browser that fails to load the image, the promise of
  \<^verbatim>\<open>extractMaskData\<close> rejects with the error of \<^verbatim>\<open>extractMaskFromImage\<close>: the \<^verbatim>\<open>catch\<close>
  block around the un-awaited \<^verbatim>\<open>return\<close> does not see it.
\<close>

theorem extractMaskData_rejects_when_mask_image_fails:
  "extractMaskData (\<lambda>url w h. LoadError)
     (Segments [Some \<lparr>segment_mask = Some \<lparr>mask_toCanvas = None, mask_data = None,
         mask_width = None, mask_height = None, mask_toDataURL = Some (DataURL ''data:,'')\<rparr>,
       segment_score = None\<rparr>]) 1 1
   = Inl (Error ''Failed to load mask image'')"
  by (simp add: extractMaskData_def fromSegment_def viaToCanvas_def viaData_def
      viaToDataURL_def extractMaskFromImage_def)

text \<open>
  Every buffer that \<^verbatim>\<open>extractMaskData\<close> resolves with has \<open>w * h\<close> entries, and the only
  rejection is the one above.
\<close>

lemma length_extractMaskFromImage:
  "extractMaskFromImage browser url w h = Inr maskData \<Longrightarrow> length maskData = w * h"
  by (auto simp: extractMaskFromImage_def Let_def length_forLoop newUint8Array_def
      split: image_load.splits)

lemma length_viaToCanvas: "viaToCanvas m w h = Some maskData \<Longrightarrow> length maskData = w * h"
  by (auto simp: viaToCanvas_def length_resizeMaskFromImageData length_forLoop newUint8Array_def
      split: option.splits canvas_readback.splits if_splits)

lemma length_viaData: "viaData m w h = Some maskData \<Longrightarrow> length maskData = w * h"
  by (auto simp: viaData_def Let_def length_resizeMask length_forLoop newUint8Array_def
      split: option.splits if_splits)

lemma length_fromResultData: "length (fromResultData result n) = n"
  by (auto simp: fromResultData_def Let_def length_forLoop newUint8Array_def fill_def
      split: segmentation_result.splits option.splits)

lemma length_fromSegment:
  "fromSegment browser seg w h = Some (Inr maskData) \<Longrightarrow> length maskData = w * h"
  by (auto simp: fromSegment_def Let_def viaToDataURL_def fill_def newUint8Array_def
      split: option.splits dataurl_call.splits
      dest: length_viaToCanvas length_viaData length_extractMaskFromImage)

lemma length_extractMaskData:
  "extractMaskData browser result w h = Inr maskData \<Longrightarrow> length maskData = w * h"
  by (auto simp: extractMaskData_def Let_def fill_def newUint8Array_def length_fromResultData
      split: segmentation_result.splits list.splits option.splits
      dest: length_fromSegment)

lemma extractMaskData_rejects_only_via_toDataURL:
  "extractMaskData browser result w h = Inl e \<Longrightarrow>
     \<exists>seg rest m url. result = Segments (Some seg # rest) \<and> segment_mask seg = Some m
        \<and> mask_toDataURL m = Some (DataURL url)
        \<and> extractMaskFromImage browser url w h = Inl e"
  by (auto simp: extractMaskData_def Let_def fromSegment_def viaToDataURL_def
      split: segmentation_result.splits list.splits option.splits dataurl_call.splits)

section \<open>The fit of the image\<close>



section \<open>Progress percentages\<close>

lemma percentOf_simps:
  "info_status d = Initiate \<Longrightarrow> percentOf d = 0"
  "info_status d = Download \<Longrightarrow> percentOf d = 0"
  "info_status d = Done \<Longrightarrow> percentOf d = 100"
  "info_status d = Ready \<Longrightarrow> percentOf d = 100"
  by (simp_all add: percentOf_def normalizeProgress_def)

lemma percentOf_Progress:
  "info_status d = Progress \<Longrightarrow> info_loaded d = Some l \<Longrightarrow> info_total d = Some t \<Longrightarrow>
     percentOf d = (if l \<noteq> 0 \<and> t \<noteq> 0 then Math_round (rat_of_nat l / rat_of_nat t * 100) else 0)"
  "info_status d = Progress \<Longrightarrow> info_loaded d = None \<Longrightarrow> percentOf d = 0"
  "info_status d = Progress \<Longrightarrow> info_total d = None \<Longrightarrow> percentOf d = 0"
  by (simp_all add: percentOf_def normalizeProgress_def split: option.splits)

lemma Math_round_mono: "a \<le> b \<Longrightarrow> Math_round a \<le> Math_round b"
  by (simp add: Math_round_def floor_mono)

lemma Math_round_of_int: "Math_round (rat_of_int n) = n"
  unfolding Math_round_def by linarith

lemma percent_bounds:
  assumes "l \<le> t"
  shows "0 \<le> Math_round (rat_of_nat l / rat_of_nat t * 100)"
    and "Math_round (rat_of_nat l / rat_of_nat t * 100) \<le> 100"
proof -
  have "Math_round (rat_of_int 0) \<le> Math_round (rat_of_nat l / rat_of_nat t * 100)"
    by (intro Math_round_mono) simp
  then show "0 \<le> Math_round (rat_of_nat l / rat_of_nat t * 100)"
    by (simp only: Math_round_of_int)
  have "rat_of_nat l / rat_of_nat t \<le> 1"
    using assms by (cases "t = 0") (simp_all add: divide_le_eq_1)
  then have "rat_of_nat l / rat_of_nat t * 100 \<le> 1 * 100"
    by (intro mult_right_mono) simp_all
  then have "rat_of_nat l / rat_of_nat t * 100 \<le> rat_of_int 100" by simp
  then have "Math_round (rat_of_nat l / rat_of_nat t * 100) \<le> Math_round (rat_of_int 100)"
    by (rule Math_round_mono)
  then show "Math_round (rat_of_nat l / rat_of_nat t * 100) \<le> 100"
    by (simp only: Math_round_of_int)
qed

lemma percentOf_range:
  assumes "\<And>l t. info_loaded d = Some l \<Longrightarrow> info_total d = Some t \<Longrightarrow> l \<le> t"
  shows "0 \<le> percentOf d \<and> percentOf d \<le> 100"
proof (cases "info_status d")
  case Progress
  show ?thesis
  proof (cases "info_loaded d")
    case None
    with Progress show ?thesis by (simp add: percentOf_Progress)
  next
    case (Some l)
    note l = this
    show ?thesis
    proof (cases "info_total d")
      case None
      with Progress show ?thesis by (simp add: percentOf_Progress)
    next
      case (Some t)
      with l assms have "l \<le> t" by simp
      from percent_bounds [OF this] Progress l Some show ?thesis
        by (simp add: percentOf_Progress)
    qed
  qed
qed (simp_all add: percentOf_simps)

lemma percentOf_progressEvent:
  "percentOf (progressEvent Progress f (Some l) (Some t)) =
     (if l \<noteq> 0 \<and> t \<noteq> 0 then Math_round (rat_of_nat l / rat_of_nat t * 100) else 0)"
  by (simp add: percentOf_Progress progressEvent_def)

lemma percentOf_progressEvent_mono:
  assumes "l \<le> l'"
  shows "percentOf (progressEvent Progress f (Some l) (Some t))
           \<le> percentOf (progressEvent Progress f (Some l') (Some t))"
proof (cases "t = 0")
  case True
  then show ?thesis by (simp add: percentOf_progressEvent)
next
  case False
  then have t: "0 < rat_of_nat t" by simp
  from assms have "rat_of_nat l / rat_of_nat t * 100 \<le> rat_of_nat l' / rat_of_nat t * 100"
    using t by (simp add: divide_right_mono)
  then have m: "Math_round (rat_of_nat l / rat_of_nat t * 100)
      \<le> Math_round (rat_of_nat l' / rat_of_nat t * 100)"
    by (rule Math_round_mono)
  show ?thesis
  proof (cases "l = 0")
    case True
    have "Math_round (rat_of_int 0) \<le> Math_round (rat_of_nat l' / rat_of_nat t * 100)"
      by (intro Math_round_mono) simp
    then have "0 \<le> Math_round (rat_of_nat l' / rat_of_nat t * 100)"
      by (simp only: Math_round_of_int)
    with True show ?thesis by (simp add: percentOf_progressEvent)
  next
    case False
    with assms have "l' \<noteq> 0" by simp
    with False m \<open>t \<noteq> 0\<close> show ?thesis by (simp add: percentOf_progressEvent)
  qed
qed

lemma sorted_progress_percent:
  "sorted loadedCounts \<Longrightarrow>
     sorted (map (\<lambda>n. percentOf (progressEvent Progress f (Some n) (Some t))) loadedCounts)"
  by (induction loadedCounts) (auto simp: percentOf_progressEvent_mono)


lemma percentOf_fileEvents:
  "map percentOf (fileEvents f t loadedCounts) =
     [0, 0] @ map (\<lambda>n. percentOf (progressEvent Progress f (Some n) (Some t))) loadedCounts @ [100]"
  by (simp add: fileEvents_def percentOf_simps progressEvent_def comp_def)

lemma sorted_fileEvents:
  assumes "sorted loadedCounts" and "\<forall>n\<in>set loadedCounts. n \<le> t"
  shows "sorted (map percentOf (fileEvents f t loadedCounts @ [progressEvent Ready f None None]))"
proof -
  have range: "\<forall>n\<in>set loadedCounts.
      0 \<le> percentOf (progressEvent Progress f (Some n) (Some t))
      \<and> percentOf (progressEvent Progress f (Some n) (Some t)) \<le> 100"
  proof
    fix n assume "n \<in> set loadedCounts"
    with assms(2) have "n \<le> t" by simp
    then show "0 \<le> percentOf (progressEvent Progress f (Some n) (Some t))
      \<and> percentOf (progressEvent Progress f (Some n) (Some t)) \<le> 100"
      by (intro percentOf_range) (simp_all add: progressEvent_def)
  qed
  have ready: "percentOf (progressEvent Ready f None None) = 100"
    by (simp add: percentOf_simps progressEvent_def)
  show ?thesis
    using sorted_progress_percent [OF assms(1), of f t] range ready
    by (simp add: percentOf_fileEvents sorted_append)
qed

text \<open>
  C4, as amended. An event whose loaded count does not exceed its total is normalized to
  an integer percentage from 0 to 100; \<^verbatim>\<open>initiate\<close> gives 0, \<^verbatim>\<open>done\<close> and \<^verbatim>\<open>ready\<close> give 100,
  and the percentage is always set. Along the events of one file with non-decreasing
  loaded counts, followed by \<^verbatim>\<open>ready\<close>, the percentages do not decrease.
\<close>

theorem normalizeProgress_percentages:
  "((\<forall>l t. info_loaded d = Some l \<and> info_total d = Some t \<longrightarrow> l \<le> t)
      \<longrightarrow> 0 \<le> percentOf d \<and> percentOf d \<le> 100)
   \<and> (info_status d = Initiate \<longrightarrow> percentOf d = 0)
   \<and> (info_status d = Done \<or> info_status d = Ready \<longrightarrow> percentOf d = 100)
   \<and> info_progress (normalizeProgress d) = Some (percentOf d)
   \<and> (sorted loadedCounts \<and> (\<forall>n\<in>set loadedCounts. n \<le> totalBytes)
      \<longrightarrow> sorted (map percentOf
            (fileEvents f totalBytes loadedCounts @ [progressEvent Ready f None None])))"
proof (intro conjI impI)
  assume "\<forall>l t. info_loaded d = Some l \<and> info_total d = Some t \<longrightarrow> l \<le> t"
  then have r: "0 \<le> percentOf d \<and> percentOf d \<le> 100"
    by (intro percentOf_range) blast
  from r show "0 \<le> percentOf d" by simp
  from r show "percentOf d \<le> 100" by simp
next
  assume "info_status d = Initiate"
  then show "percentOf d = 0" by (rule percentOf_simps)
next
  assume "info_status d = Done \<or> info_status d = Ready"
  then show "percentOf d = 100" by (auto simp: percentOf_simps)
next
  show "info_progress (normalizeProgress d) = Some (percentOf d)"
    by (simp add: percentOf_def normalizeProgress_def)
next
  assume "sorted loadedCounts \<and> (\<forall>n\<in>set loadedCounts. n \<le> totalBytes)"
  then show "sorted (map percentOf
            (fileEvents f totalBytes loadedCounts @ [progressEvent Ready f None None]))"
    by (intro sorted_fileEvents) simp_all
qed

theorem normalizeProgress_percentages_witness:
  "map percentOf (fileEvents ''model.onnx'' 4 [1, 2, 4] @ [progressEvent Ready ''model.onnx'' None None])
     = [0, 0, 25, 50, 100, 100, 100]
   \<and> sorted (map percentOf
        (fileEvents ''model.onnx'' 4 [1, 2, 4] @ [progressEvent Ready ''model.onnx'' None None]))"
proof -
  have vals: "map percentOf (fileEvents ''model.onnx'' 4 [1, 2, 4]
        @ [progressEvent Ready ''model.onnx'' None None]) = [0, 0, 25, 50, 100, 100, 100]"
    by (simp add: fileEvents_def progressEvent_def percentOf_def normalizeProgress_def
        Math_round_def)
  have "sorted (map percentOf
        (fileEvents ''model.onnx'' 4 [1, 2, 4] @ [progressEvent Ready ''model.onnx'' None None]))"
    using normalizeProgress_percentages [of "progressEvent Ready ''model.onnx'' None None"
        "[1, 2, 4]" 4 "''model.onnx''"]
    by simp
  with vals show ?thesis by simp
qed

text \<open>
  Over a run of two files the percentages are not monotonic: \<^verbatim>\<open>normalizeProgress\<close> keeps
  no state, and the second file starts again at 0. An event that reports more bytes loaded
  than its total is normalized to more than 100.
\<close>

theorem normalizeProgress_not_monotonic:
  "map percentOf (fileEvents ''config.json'' 10 [10] @ fileEvents ''model.onnx'' 4 [1, 4]
      @ [progressEvent Ready ''model.onnx'' None None])
     = [0, 0, 100, 100, 0, 0, 25, 100, 100, 100]
   \<and> \<not> sorted (map percentOf (fileEvents ''config.json'' 10 [10]
        @ fileEvents ''model.onnx'' 4 [1, 4] @ [progressEvent Ready ''model.onnx'' None None]))
   \<and> percentOf (progressEvent Progress ''model.onnx'' (Some 3) (Some 2)) = 150"
proof -
  have over: "percentOf (progressEvent Progress ''model.onnx'' (Some 3) (Some 2)) = 150"
    by (simp add: progressEvent_def percentOf_def normalizeProgress_def Math_round_def)
  have vals: "map percentOf (fileEvents ''config.json'' 10 [10] @ fileEvents ''model.onnx'' 4 [1, 4]
      @ [progressEvent Ready ''model.onnx'' None None])
     = [0, 0, 100, 100, 0, 0, 25, 100, 100, 100]"
    by (simp add: fileEvents_def progressEvent_def percentOf_def normalizeProgress_def
        Math_round_def)
  show ?thesis unfolding vals using over by simp
qed

section \<open>The singleton loader\<close>

lemma run_Nil: "run [] s = s"
  by (simp add: run_def)

lemma run_Cons: "run (ev # events) s = run events (step ev s)"
  by (simp add: run_def)

lemma run_append: "run (xs @ ys) s = run ys (run xs s)"
  by (simp add: run_def)

lemma calls_when_cached:
  "segmenterInstance s = Some inst \<Longrightarrow>
     run (replicate k Call) s = s\<lparr>calls := calls s @ replicate k (Returned inst)\<rparr>"
proof (induction k arbitrary: s)
  case 0
  then show ?case by (simp add: run_Nil)
next
  case (Suc k)
  have "segmenterInstance (getSegmenter s) = Some inst"
    using Suc.prems by (simp add: getSegmenter_def)
  from Suc.IH [OF this] Suc.prems show ?case
    by (simp add: run_Cons getSegmenter_def)
qed

lemma calls_when_loading:
  "segmenterInstance s = None \<Longrightarrow> loadingPromise s = Some p \<Longrightarrow>
     run (replicate k Call) s = s\<lparr>calls := calls s @ replicate k (Adopted p)\<rparr>"
proof (induction k arbitrary: s)
  case 0
  then show ?case by (simp add: run_Nil)
next
  case (Suc k)
  have "segmenterInstance (getSegmenter s) = None" "loadingPromise (getSegmenter s) = Some p"
    using Suc.prems by (simp_all add: getSegmenter_def)
  from Suc.IH [OF this] Suc.prems show ?case
    by (simp add: run_Cons getSegmenter_def)
qed

lemma calls_when_idle:
  assumes "segmenterInstance s = None" and "loadingPromise s = None" and "0 < n"
  shows "run (replicate n Call) s =
           s\<lparr>loadingPromise := Some (length (loads s)), loads := loads s @ [Pending],
              calls := calls s @ Awaiting (length (loads s)) # replicate (n - 1) (Adopted (length (loads s)))\<rparr>"
proof -
  from assms(3) obtain k where n: "n = Suc k" by (cases n) auto
  let ?s = "getSegmenter s"
  have first: "?s = s\<lparr>loadingPromise := Some (length (loads s)), loads := loads s @ [Pending],
       calls := calls s @ [Awaiting (length (loads s))]\<rparr>"
    using assms(1,2) by (simp add: getSegmenter_def Let_def)
  then have "segmenterInstance ?s = None" "loadingPromise ?s = Some (length (loads s))"
    using assms(1) by simp_all
  from calls_when_loading [OF this, of k] first show ?thesis
    by (simp add: n run_Cons)
qed


lemma elemAt_append_length: "elemAt (xs @ y # ys) (length xs) = Some y"
  by (simp add: elemAt_def)

lemma elemAt_nth: "i < length xs \<Longrightarrow> elemAt xs i = Some (xs ! i)"
  by (simp add: elemAt_def)

lemma received_Returned: "elemAt (calls s) i = Some (Returned inst) \<Longrightarrow> received s i = Fulfilled inst"
  by (simp add: received_def)

lemma received_Adopted:
  "elemAt (calls s) i = Some (Adopted p) \<Longrightarrow> elemAt (loads s) p = Some settled \<Longrightarrow>
     received s i = settled"
  by (simp add: received_def)

lemma received_Awaiting: "elemAt (calls s) i = Some (Awaiting p) \<Longrightarrow> received s i = Pending"
  by (simp add: received_def)

lemma received_Threw: "elemAt (calls s) i = Some (Threw e) \<Longrightarrow> received s i = Rejected e"
  by (simp add: received_def)

text \<open>
  C5. From a state with no instance and no load in flight, \<open>n > 0\<close> calls of
  \<^verbatim>\<open>getSegmenter\<close> made before the load settles start exactly one \<^verbatim>\<open>initializeModel\<close>: the
  first call awaits its promise and every other call adopts the same promise, so all of
  them are pending on one operation. When that load succeeds, then whether further calls
  arrive before or after the first call's continuation has stored the instance, no second
  load is started, every caller receives the instance, and the calls made after the
  instance is stored return it from the cache.
\<close>

theorem getSegmenter_deduplicates:
  assumes "segmenterInstance s0 = None" and "loadingPromise s0 = None" and "0 < n"
  shows "(let p = length (loads s0);
              c = length (calls s0);
              s1 = run (replicate n Call) s0;
              s2 = run (Settle p (Loaded inst) # replicate j Call @ Resume c # replicate k Call) s1
          in loads s1 = loads s0 @ [Pending]
           \<and> calls s1 = calls s0 @ Awaiting p # replicate (n - 1) (Adopted p)
           \<and> (\<forall>i<n. received s1 (c + i) = Pending)
           \<and> loads s2 = loads s0 @ [Fulfilled inst]
           \<and> segmenterInstance s2 = Some inst
           \<and> calls s2 = calls s0 @ Returned inst # replicate (n - 1 + j) (Adopted p)
                 @ replicate k (Returned inst)
           \<and> (\<forall>i<n + j + k. received s2 (c + i) = Fulfilled inst))"
proof -
  let ?p = "length (loads s0)"
  let ?c = "length (calls s0)"
  let ?s1 = "run (replicate n Call) s0"
  let ?a = "settle ?p (Loaded inst) ?s1"
  let ?b = "run (replicate j Call) ?a"
  let ?d = "resume ?c ?b"
  let ?s2 = "run (replicate k Call) ?d"
  have s1: "?s1 = s0\<lparr>loadingPromise := Some ?p, loads := loads s0 @ [Pending],
      calls := calls s0 @ Awaiting ?p # replicate (n - 1) (Adopted ?p)\<rparr>"
    by (rule calls_when_idle [OF assms])
  have a: "?a = s0\<lparr>loadingPromise := Some ?p, loads := loads s0 @ [Fulfilled inst],
      calls := calls s0 @ Awaiting ?p # replicate (n - 1) (Adopted ?p)\<rparr>"
    unfolding s1 by (simp add: settle_def elemAt_append_length initializeModel_def)
  have b: "?b = s0\<lparr>loadingPromise := Some ?p, loads := loads s0 @ [Fulfilled inst],
      calls := calls s0 @ Awaiting ?p # replicate (n - 1 + j) (Adopted ?p)\<rparr>"
    using assms(1)
    by (subst calls_when_loading [where p = ?p]) (simp_all add: a replicate_add)
  have d: "?d = s0\<lparr>segmenterInstance := Some inst, loadingPromise := Some ?p,
      loads := loads s0 @ [Fulfilled inst],
      calls := calls s0 @ Returned inst # replicate (n - 1 + j) (Adopted ?p)\<rparr>"
    unfolding b by (simp add: resume_def elemAt_append_length)
  have s2: "?s2 = s0\<lparr>segmenterInstance := Some inst, loadingPromise := Some ?p,
      loads := loads s0 @ [Fulfilled inst],
      calls := calls s0 @ Returned inst # replicate (n - 1 + j) (Adopted ?p)
         @ replicate k (Returned inst)\<rparr>"
    by (subst calls_when_cached [where inst = inst]) (simp_all add: d)
  have run2: "run (Settle ?p (Loaded inst) # replicate j Call @ Resume ?c # replicate k Call) ?s1 = ?s2"
    by (simp add: run_Cons run_append)
  have pending: "\<forall>i<n. received ?s1 (?c + i) = Pending"
  proof (intro allI impI)
    fix i assume "i < n"
    then have "elemAt (calls ?s1) (?c + i) = Some (Awaiting ?p) \<or>
        (elemAt (calls ?s1) (?c + i) = Some (Adopted ?p) \<and> elemAt (loads ?s1) ?p = Some Pending)"
      unfolding s1 by (cases i) (simp_all add: elemAt_def nth_append)
    then show "received ?s1 (?c + i) = Pending"
      by (auto simp: received_Awaiting received_Adopted)
  qed
  have fulfilled: "\<forall>i<n + j + k. received ?s2 (?c + i) = Fulfilled inst"
  proof (intro allI impI)
    fix i assume i: "i < n + j + k"
    have ld: "elemAt (loads ?s2) ?p = Some (Fulfilled inst)"
      unfolding s2 by (simp add: elemAt_append_length)
    from i assms(3) have "elemAt (calls ?s2) (?c + i) = Some (Returned inst) \<or>
        elemAt (calls ?s2) (?c + i) = Some (Adopted ?p)"
      unfolding s2 by (cases i) (auto simp: elemAt_def nth_append nth_Cons')
    with ld show "received ?s2 (?c + i) = Fulfilled inst"
      by (auto simp: received_Returned received_Adopted)
  qed
  have L1: "loads ?s1 = loads s0 @ [Pending]"
    and C1: "calls ?s1 = calls s0 @ Awaiting ?p # replicate (n - 1) (Adopted ?p)"
    by (simp_all add: s1)
  have L2: "loads ?s2 = loads s0 @ [Fulfilled inst]"
    and I2: "segmenterInstance ?s2 = Some inst"
    and C2: "calls ?s2 = calls s0 @ Returned inst # replicate (n - 1 + j) (Adopted ?p)
         @ replicate k (Returned inst)"
    by (simp_all add: s2)
  show ?thesis
    unfolding Let_def run2
    by (intro conjI L1 C1 pending L2 I2 C2 fulfilled)
qed


theorem getSegmenter_deduplicates_witness:
  "loads (run [Call, Call] initial) = [Pending]
   \<and> calls (run [Call, Call] initial) = [Awaiting 0, Adopted 0]
   \<and> loads (run [Settle 0 (Loaded 7), Resume 0, Call] (run [Call, Call] initial)) = [Fulfilled 7]
   \<and> calls (run [Settle 0 (Loaded 7), Resume 0, Call] (run [Call, Call] initial))
        = [Returned 7, Adopted 0, Returned 7]
   \<and> segmenterInstance (run [Settle 0 (Loaded 7), Resume 0, Call] (run [Call, Call] initial))
        = Some 7"
  using getSegmenter_deduplicates [of initial 2 7 0 1]
  by (simp add: initial_def Let_def numeral_2_eq_2)

text \<open>
  C6. When the load in flight fails with error \<open>e\<close>, the first call's \<^verbatim>\<open>catch\<close> block
  clears \<^verbatim>\<open>loadingPromise\<close> and rethrows: every caller of that load receives a rejection
  with \<open>e\<close>, no instance is cached, and the next \<^verbatim>\<open>getSegmenter\<close> call starts a second
  \<^verbatim>\<open>initializeModel\<close> whose promise is pending, instead of receiving the old failure. The
  error \<open>e\<close> is the one thrown inside \<^verbatim>\<open>initializeModel\<close> when that is an \<^verbatim>\<open>Error\<close>.
\<close>

theorem getSegmenter_retries_after_failure:
  assumes "segmenterInstance s0 = None" and "loadingPromise s0 = None" and "0 < n"
    and "initializeModel outcome = Rejected e"
  shows "(let p = length (loads s0);
              c = length (calls s0);
              s1 = run (replicate n Call) s0;
              s2 = run [Settle p outcome, Resume c] s1;
              s3 = run [Call] s2
          in (\<forall>i<n. received s2 (c + i) = Rejected e)
           \<and> loadingPromise s2 = None
           \<and> segmenterInstance s2 = None
           \<and> loads s2 = loads s0 @ [Rejected e]
           \<and> loads s3 = loads s0 @ [Rejected e, Pending]
           \<and> loadingPromise s3 = Some (Suc p)
           \<and> calls s3 = calls s2 @ [Awaiting (Suc p)]
           \<and> received s3 (c + n) = Pending)
       \<and> initializeModel (ThrowsError e) = Rejected e
       \<and> initializeModel ThrowsOther = Rejected (Error ''Failed to load model'')"
proof -
  let ?p = "length (loads s0)"
  let ?c = "length (calls s0)"
  let ?s1 = "run (replicate n Call) s0"
  let ?a = "settle ?p outcome ?s1"
  let ?s2 = "resume ?c ?a"
  let ?s3 = "getSegmenter ?s2"
  have s1: "?s1 = s0\<lparr>loadingPromise := Some ?p, loads := loads s0 @ [Pending],
      calls := calls s0 @ Awaiting ?p # replicate (n - 1) (Adopted ?p)\<rparr>"
    by (rule calls_when_idle [OF assms(1,2,3)])
  have a: "?a = s0\<lparr>loadingPromise := Some ?p, loads := loads s0 @ [Rejected e],
      calls := calls s0 @ Awaiting ?p # replicate (n - 1) (Adopted ?p)\<rparr>"
    unfolding s1 by (simp add: settle_def elemAt_append_length assms(4))
  have s2: "?s2 = s0\<lparr>loadingPromise := None, loads := loads s0 @ [Rejected e],
      calls := calls s0 @ Threw e # replicate (n - 1) (Adopted ?p)\<rparr>"
    unfolding a by (simp add: resume_def elemAt_append_length)
  have s3: "?s3 = s0\<lparr>loadingPromise := Some (Suc ?p), loads := loads s0 @ [Rejected e, Pending],
      calls := calls s0 @ Threw e # replicate (n - 1) (Adopted ?p) @ [Awaiting (Suc ?p)]\<rparr>"
    unfolding s2 using assms(1) by (simp add: getSegmenter_def)
  have run2: "run [Settle ?p outcome, Resume ?c] ?s1 = ?s2"
    by (simp add: run_Cons run_Nil)
  have run3: "run [Call] ?s2 = ?s3"
    by (simp add: run_Cons run_Nil)
  have rejected: "\<forall>i<n. received ?s2 (?c + i) = Rejected e"
  proof (intro allI impI)
    fix i assume i: "i < n"
    have ld: "elemAt (loads ?s2) ?p = Some (Rejected e)"
      unfolding s2 by (simp add: elemAt_append_length)
    from i have "elemAt (calls ?s2) (?c + i) = Some (Threw e) \<or>
        elemAt (calls ?s2) (?c + i) = Some (Adopted ?p)"
      unfolding s2 by (cases i) (auto simp: elemAt_def nth_append)
    with ld show "received ?s2 (?c + i) = Rejected e"
      by (auto simp: received_Threw received_Adopted)
  qed
  have LP2: "loadingPromise ?s2 = None" and I2: "segmenterInstance ?s2 = None"
    and L2: "loads ?s2 = loads s0 @ [Rejected e]"
    using assms(1) by (simp_all add: s2)
  have C2: "calls ?s2 = calls s0 @ Threw e # replicate (n - 1) (Adopted ?p)"
    by (simp add: s2)
  have L3: "loads ?s3 = loads s0 @ [Rejected e, Pending]"
    and LP3: "loadingPromise ?s3 = Some (Suc ?p)"
    by (simp_all add: s3)
  have C3: "calls ?s3 = calls ?s2 @ [Awaiting (Suc ?p)]"
    unfolding C2 by (simp add: s3)
  have "elemAt (calls ?s3) (?c + n) = Some (Awaiting (Suc ?p))"
    using assms(3) unfolding C3 C2 by (simp add: elemAt_def nth_append)
  then have R3: "received ?s3 (?c + n) = Pending"
    by (rule received_Awaiting)
  have wrap: "initializeModel (ThrowsError e) = Rejected e"
    "initializeModel ThrowsOther = Rejected (Error ''Failed to load model'')"
    by (simp_all add: initializeModel_def)
  show ?thesis
    unfolding Let_def run2 run3
    by (intro conjI rejected LP2 I2 L2 L3 LP3 C3 R3 wrap)
qed

theorem getSegmenter_retries_after_failure_witness:
  "received (run [Settle 0 (ThrowsError (Error ''network'')), Resume 0] (run [Call, Call] initial)) 0
     = Rejected (Error ''network'')
   \<and> loadingPromise (run [Settle 0 (ThrowsError (Error ''network'')), Resume 0]
        (run [Call, Call] initial)) = None
   \<and> loads (run [Call] (run [Settle 0 (ThrowsError (Error ''network'')), Resume 0]
        (run [Call, Call] initial))) = [Rejected (Error ''network''), Pending]
   \<and> loadingPromise (run [Call] (run [Settle 0 (ThrowsError (Error ''network'')), Resume 0]
        (run [Call, Call] initial))) = Some 1"
  using getSegmenter_retries_after_failure [of initial 2 "ThrowsError (Error ''network'')"
      "Error ''network''"]
  by (simp add: initial_def Let_def numeral_2_eq_2 initializeModel_def)

text \<open>
  Over every sequence of calls, settlements and continuations from the initial state, at
  most one load is pending at a time.
\<close>

lemma elemAt_snoc:
  "elemAt (xs @ [y]) i = (if i = length xs then Some y else elemAt xs i)"
  by (auto simp: elemAt_def nth_append)

lemma elemAt_update:
  "elemAt (xs[i := y]) j = (if j = i \<and> i < length xs then Some y else elemAt xs j)"
  by (auto simp: elemAt_def)

lemma loader_inv_initial: "loader_inv initial"
  by (simp add: loader_inv_def initial_def elemAt_def)

lemma loader_inv_settle: "loader_inv s \<Longrightarrow> loader_inv (settle p outcome s)"
proof (cases "elemAt (loads s) p = Some Pending")
  case False
  assume "loader_inv s"
  with False show ?thesis by (simp add: settle_def)
next
  case True
  assume inv: "loader_inv s"
  have settled: "initializeModel outcome \<noteq> Pending"
    by (simp add: initializeModel_def split: pipeline_outcome.splits)
  have st: "settle p outcome s = s\<lparr>loads := (loads s)[p := initializeModel outcome]\<rparr>"
    using True by (simp add: settle_def)
  have pend: "\<And>q. elemAt ((loads s)[p := initializeModel outcome]) q = Some Pending
      \<Longrightarrow> elemAt (loads s) q = Some Pending"
    using settled by (simp add: elemAt_update split: if_splits)
  show ?thesis
    unfolding st using inv pend by (simp add: loader_inv_def)
qed


lemma loader_inv_append_call:
  assumes "loader_inv s" and "\<And>q. x \<noteq> Awaiting q"
  shows "loader_inv (s\<lparr>calls := calls s @ [x]\<rparr>)"
proof -
  have old: "\<And>c p. elemAt (calls s @ [x]) c = Some (Awaiting p)
      \<Longrightarrow> elemAt (calls s) c = Some (Awaiting p)"
    using assms(2) by (simp add: elemAt_snoc split: if_splits)
  show ?thesis
    unfolding loader_inv_def
  proof (intro conjI allI impI)
    fix p assume "elemAt (loads (s\<lparr>calls := calls s @ [x]\<rparr>)) p = Some Pending"
    then show "loadingPromise (s\<lparr>calls := calls s @ [x]\<rparr>) = Some p"
      using assms(1) by (simp add: loader_inv_def)
  next
    fix c p assume "elemAt (calls (s\<lparr>calls := calls s @ [x]\<rparr>)) c = Some (Awaiting p)"
    then have "elemAt (calls s) c = Some (Awaiting p)" using old by simp
    then show "loadingPromise (s\<lparr>calls := calls s @ [x]\<rparr>) = Some p"
      using assms(1) by (simp add: loader_inv_def)
  next
    fix c c' p p'
    assume "elemAt (calls (s\<lparr>calls := calls s @ [x]\<rparr>)) c = Some (Awaiting p)"
      and "elemAt (calls (s\<lparr>calls := calls s @ [x]\<rparr>)) c' = Some (Awaiting p')"
    then have "elemAt (calls s) c = Some (Awaiting p)" "elemAt (calls s) c' = Some (Awaiting p')"
      using old by simp_all
    then show "c = c'"
      using assms(1) unfolding loader_inv_def by blast
  qed
qed

lemma loader_inv_start:
  assumes "loader_inv s" and "loadingPromise s = None"
  shows "loader_inv (s\<lparr>loadingPromise := Some (length (loads s)), loads := loads s @ [Pending],
           calls := calls s @ [Awaiting (length (loads s))]\<rparr>)"
proof -
  from assms have no_pending: "\<And>p. elemAt (loads s) p \<noteq> Some Pending"
    and no_awaiting: "\<And>c p. elemAt (calls s) c \<noteq> Some (Awaiting p)"
    unfolding loader_inv_def by fastforce+
  show ?thesis
    unfolding loader_inv_def
  proof (intro conjI allI impI)
    fix p
    assume "elemAt (loads (s\<lparr>loadingPromise := Some (length (loads s)),
        loads := loads s @ [Pending], calls := calls s @ [Awaiting (length (loads s))]\<rparr>)) p
        = Some Pending"
    then have "p = length (loads s)"
      using no_pending by (simp add: elemAt_snoc split: if_splits)
    then show "loadingPromise (s\<lparr>loadingPromise := Some (length (loads s)),
        loads := loads s @ [Pending], calls := calls s @ [Awaiting (length (loads s))]\<rparr>) = Some p"
      by simp
  next
    fix c p
    assume "elemAt (calls (s\<lparr>loadingPromise := Some (length (loads s)),
        loads := loads s @ [Pending], calls := calls s @ [Awaiting (length (loads s))]\<rparr>)) c
        = Some (Awaiting p)"
    then have "p = length (loads s)"
      using no_awaiting by (simp add: elemAt_snoc split: if_splits)
    then show "loadingPromise (s\<lparr>loadingPromise := Some (length (loads s)),
        loads := loads s @ [Pending], calls := calls s @ [Awaiting (length (loads s))]\<rparr>) = Some p"
      by simp
  next
    fix c c' p p'
    assume "elemAt (calls (s\<lparr>loadingPromise := Some (length (loads s)),
        loads := loads s @ [Pending], calls := calls s @ [Awaiting (length (loads s))]\<rparr>)) c
        = Some (Awaiting p)"
      and "elemAt (calls (s\<lparr>loadingPromise := Some (length (loads s)),
        loads := loads s @ [Pending], calls := calls s @ [Awaiting (length (loads s))]\<rparr>)) c'
        = Some (Awaiting p')"
    then have "c = length (calls s)" "c' = length (calls s)"
      using no_awaiting by (simp_all add: elemAt_snoc split: if_splits)
    then show "c = c'" by simp
  qed
qed

lemma loader_inv_getSegmenter: "loader_inv s \<Longrightarrow> loader_inv (getSegmenter s)"
proof -
  assume inv: "loader_inv s"
  show ?thesis
  proof (cases "segmenterInstance s")
    case (Some inst)
    then show ?thesis
      using loader_inv_append_call [OF inv, of "Returned inst"] by (simp add: getSegmenter_def)
  next
    case None
    note idle = this
    show ?thesis
    proof (cases "loadingPromise s")
      case (Some p)
      then show ?thesis
        using idle loader_inv_append_call [OF inv, of "Adopted p"] by (simp add: getSegmenter_def)
    next
      case None
      then show ?thesis
        using idle loader_inv_start [OF inv None] by (simp add: getSegmenter_def Let_def)
    qed
  qed
qed


lemma no_awaiting_after_resume:
  assumes "loader_inv s" and "elemAt (calls s) c = Some (Awaiting p)" and "\<And>q. x \<noteq> Awaiting q"
  shows "elemAt ((calls s)[c := x]) c' \<noteq> Some (Awaiting p')"
proof
  assume a: "elemAt ((calls s)[c := x]) c' = Some (Awaiting p')"
  then have "c' \<noteq> c \<or> \<not> c < length (calls s)"
    using assms(3) by (auto simp: elemAt_update split: if_splits)
  moreover from assms(2) have "c < length (calls s)"
    by (simp add: elemAt_def split: if_splits)
  ultimately have "c' \<noteq> c" by simp
  with a have "elemAt (calls s) c' = Some (Awaiting p')"
    by (simp add: elemAt_update split: if_splits)
  with assms(1,2) have "c' = c"
    unfolding loader_inv_def by blast
  with \<open>c' \<noteq> c\<close> show False by simp
qed

lemma loader_inv_resume: "loader_inv s \<Longrightarrow> loader_inv (resume c s)"
proof -
  assume inv: "loader_inv s"
  show ?thesis
  proof (cases "\<exists>p. elemAt (calls s) c = Some (Awaiting p)")
    case False
    then have "resume c s = s"
      by (auto simp: resume_def split: option.splits call.splits)
    with inv show ?thesis by simp
  next
    case True
    then obtain p where aw: "elemAt (calls s) c = Some (Awaiting p)" by blast
    with inv have lp: "loadingPromise s = Some p"
      unfolding loader_inv_def by blast
    show ?thesis
    proof (cases "elemAt (loads s) p")
      case None
      with aw have "resume c s = s" by (simp add: resume_def)
      with inv show ?thesis by simp
    next
      case (Some settled)
      show ?thesis
      proof (cases settled)
        case Pending
        with aw Some have "resume c s = s" by (simp add: resume_def)
        with inv show ?thesis by simp
      next
        case (Fulfilled inst)
        with aw Some have r: "resume c s =
            s\<lparr>segmenterInstance := Some inst, calls := (calls s)[c := Returned inst]\<rparr>"
          by (simp add: resume_def)
        have none: "\<And>c' p'. elemAt ((calls s)[c := Returned inst]) c' \<noteq> Some (Awaiting p')"
          by (rule no_awaiting_after_resume [OF inv aw]) simp
        show ?thesis
          unfolding r loader_inv_def using inv none by (simp add: loader_inv_def)
      next
        case (Rejected e)
        with aw Some have r: "resume c s =
            s\<lparr>loadingPromise := None, calls := (calls s)[c := Threw e]\<rparr>"
          by (simp add: resume_def)
        have none: "\<And>c' p'. elemAt ((calls s)[c := Threw e]) c' \<noteq> Some (Awaiting p')"
          by (rule no_awaiting_after_resume [OF inv aw]) simp
        have no_pending: "\<And>q. elemAt (loads s) q \<noteq> Some Pending"
        proof
          fix q assume q: "elemAt (loads s) q = Some Pending"
          with inv have "loadingPromise s = Some q"
            unfolding loader_inv_def by blast
          with lp have "q = p" by simp
          with q Some Rejected show False by simp
        qed
        show ?thesis
          unfolding r loader_inv_def using none no_pending by simp
      qed
    qed
  qed
qed

lemma loader_inv_run: "loader_inv s \<Longrightarrow> loader_inv (run events s)"
proof (induction events arbitrary: s)
  case Nil
  then show ?case by (simp add: run_Nil)
next
  case (Cons ev events)
  have "loader_inv (step ev s)"
    using Cons.prems
    by (cases ev) (simp_all add: loader_inv_getSegmenter loader_inv_settle loader_inv_resume)
  then show ?case by (simp add: run_Cons Cons.IH)
qed

lemma at_most_one_load_in_flight:
  assumes "elemAt (loads (run events initial)) p = Some Pending"
    and "elemAt (loads (run events initial)) q = Some Pending"
  shows "p = q"
proof -
  have "loader_inv (run events initial)"
    by (rule loader_inv_run [OF loader_inv_initial])
  then have "loadingPromise (run events initial) = Some p"
    "loadingPromise (run events initial) = Some q"
    using assms unfolding loader_inv_def by blast+
  then show ?thesis by simp
qed

end
